theory Spec2Isabelle
  imports Main "HOL-Library.Char_ord" "HOL-Library.List_Lexorder"
begin

text \<open>
  A model of \<^verbatim>\<open>pmtproc.py\<close>, a script that opens a GiveSendGo campaign page in a
  browser, records the network traffic of the session in a HAR file and reports the
  requests that went to payment processors. The sections follow the script: the string
  operations it uses, \<^verbatim>\<open>extract_slug\<close>, \<^verbatim>\<open>reg_domain\<close>, the report, the path of
  the HAR file, the session with its callbacks, and \<^verbatim>\<open>main\<close>. The properties
  proved about them come after the definitions.
\<close>

section \<open>Strings\<close>

text \<open>
  Python strings are modelled as \<open>string\<close> (lists of 8-bit characters), ordered
  lexicographically by character code as Python orders \<open>str\<close>. The case mapping,
  the whitespace class and case-insensitive matching are those of Python on the ASCII
  range; text outside ASCII is not covered by the model.
\<close>

definition lower_char :: "char \<Rightarrow> char" where
  "lower_char c =
     (if CHR ''A'' \<le> c \<and> c \<le> CHR ''Z'' then char_of (of_char c + (32::nat)) else c)"

text \<open>\<^verbatim>\<open>s.lower()\<close>\<close>

definition lower :: "string \<Rightarrow> string" where
  "lower s = map lower_char s"

text \<open>The characters \<^verbatim>\<open>str.strip()\<close> removes: TAB, LF, VT, FF, CR, FS, GS, RS, US and space.\<close>

definition is_space :: "char \<Rightarrow> bool" where
  "is_space c = (let n = (of_char c :: nat) in (9 \<le> n \<and> n \<le> 13) \<or> (28 \<le> n \<and> n \<le> 32))"

text \<open>\<^verbatim>\<open>s.strip()\<close>\<close>

definition strip :: "string \<Rightarrow> string" where
  "strip s = rev (dropWhile is_space (rev (dropWhile is_space s)))"

text \<open>\<^verbatim>\<open>s.lstrip(chars)\<close>: removes leading characters that occur in \<open>chars\<close>.\<close>

definition lstrip :: "string \<Rightarrow> string \<Rightarrow> string" where
  "lstrip chars s = dropWhile (\<lambda>c. c \<in> set chars) s"

text \<open>\<^verbatim>\<open>s.startswith(p)\<close>\<close>

definition startswith :: "string \<Rightarrow> string \<Rightarrow> bool" where
  "startswith s p = (take (length p) s = p)"

text \<open>\<^verbatim>\<open>s.split(d)\<close> for a one-character separator: never the empty list.\<close>

fun split :: "char \<Rightarrow> string \<Rightarrow> string list" where
  "split d [] = [[]]"
| "split d (c # cs) =
     (if c = d then [] # split d cs
      else (case split d cs of [] \<Rightarrow> [[c]] | p # ps \<Rightarrow> (c # p) # ps))"

text \<open>\<^verbatim>\<open>sep.join(parts)\<close>\<close>

fun join :: "string \<Rightarrow> string list \<Rightarrow> string" where
  "join sep [] = []"
| "join sep [p] = p"
| "join sep (p # q # ps) = p @ sep @ join sep (q # ps)"

text \<open>\<^verbatim>\<open>xs[-n:]\<close>: the last \<open>n\<close> elements, all of them when there are fewer.\<close>

definition last_n :: "nat \<Rightarrow> 'a list \<Rightarrow> 'a list" where
  "last_n n xs = drop (length xs - n) xs"

section \<open>Slug extraction\<close>

text \<open>
  \<^verbatim>\<open>re.search(r"givesendgo\.com/([^/?#]+)", target, re.I)\<close>: the literal is matched
  ignoring case, the group is the longest non-empty run of characters other than
  \<open>/\<close>, \<open>?\<close> and \<open>#\<close>; the search takes the leftmost position where both succeed.
\<close>

definition slug_literal :: string where
  "slug_literal = ''givesendgo.com/''"

definition slug_char :: "char \<Rightarrow> bool" where
  "slug_char c = (c \<notin> set ''/?#'')"

definition match_here :: "string \<Rightarrow> string option" where
  "match_here s =
     (let n = length slug_literal; grp = takeWhile slug_char (drop n s)
      in if lower (take n s) = slug_literal \<and> grp \<noteq> [] then Some grp else None)"

fun re_search :: "string \<Rightarrow> string option" where
  "re_search [] = match_here []"
| "re_search (c # cs) =
     (case match_here (c # cs) of Some g \<Rightarrow> Some g | None \<Rightarrow> re_search cs)"

definition extract_slug :: "string \<Rightarrow> string" where
  "extract_slug target = (case re_search target of Some g \<Rightarrow> g | None \<Rightarrow> strip target)"

section \<open>Registrable domain\<close>

text \<open>The exceptions of the model: an error of a library, and Python's \<^verbatim>\<open>ValueError\<close>.\<close>

datatype exn = LibraryError | ValueError

text \<open>
  The optional \<^verbatim>\<open>tldextract\<close> library is not part of the program: \<^verbatim>\<open>_tx\<close> is a
  parameter, \<open>None\<close> when the import failed. A call of the library, which
  reg_domain makes with the keyword \<^verbatim>\<open>include_psl=True\<close>, returns the fields
  \<^verbatim>\<open>domain\<close> and \<^verbatim>\<open>suffix\<close> of its result, or raises; reg_domain does not
  catch what it raises.
\<close>

record extract_result =
  domain :: string
  suffix :: string

type_synonym tldextract = "string \<Rightarrow> exn + extract_result"

definition last_two_labels :: "string \<Rightarrow> string" where
  "last_two_labels netloc =
     (let parts = split CHR ''.'' netloc
      in if length parts \<ge> 2 then join ''.'' (last_n 2 parts) else netloc)"

definition reg_domain :: "tldextract option \<Rightarrow> string \<Rightarrow> exn + string" where
  "reg_domain tx netloc0 =
     (let netloc = lstrip ''www.'' (lower netloc0)
      in case tx of
           None \<Rightarrow> Inr (last_two_labels netloc)
         | Some f \<Rightarrow>
             (case f netloc of
                Inl e \<Rightarrow> Inl e
              | Inr t \<Rightarrow>
                  if domain t \<noteq> [] \<and> suffix t \<noteq> [] then Inr (domain t @ ''.'' @ suffix t)
                  else Inr (last_two_labels netloc)))"

text \<open>
  The registrable domain in the words of the specification, for comparison: a leading
  \<open>www.\<close> label is removed, then the last two labels are returned.
\<close>

definition strip_www_label :: "string \<Rightarrow> string" where
  "strip_www_label host = (if startswith host ''www.'' then drop 4 host else host)"

definition registrable_domain_spec :: "string \<Rightarrow> string" where
  "registrable_domain_spec host = last_two_labels (strip_www_label host)"

section \<open>Report\<close>

text \<open>
  \<^verbatim>\<open>sorted({u for u in matched_urls if u.startswith("http")})\<close>: the set has no
  duplicates, so the sorted list does not depend on the order the set is read in.
\<close>

definition unique_urls :: "string list \<Rightarrow> string list" where
  "unique_urls matched_urls = sort (remdups (filter (\<lambda>u. startswith u ''http'') matched_urls))"

text \<open>
  \<^verbatim>\<open>[reg_domain(urlparse(u).netloc) for u in unique_urls if urlparse(u).netloc]\<close>.
  The standard library's \<^verbatim>\<open>urlparse(u).netloc\<close> is the parameter \<open>netloc_of\<close>; it
  raises on some malformed URLs, and the comprehension does not catch that.
\<close>

fun domains_of :: "tldextract option \<Rightarrow> (string \<Rightarrow> exn + string) \<Rightarrow> string list \<Rightarrow> exn + string list" where
  "domains_of tx netloc_of [] = Inr []"
| "domains_of tx netloc_of (u # us) =
     (case netloc_of u of
        Inl e \<Rightarrow> Inl e
      | Inr n \<Rightarrow>
          if n = [] then domains_of tx netloc_of us
          else (case reg_domain tx n of
                  Inl e \<Rightarrow> Inl e
                | Inr d \<Rightarrow>
                    (case domains_of tx netloc_of us of
                       Inl e \<Rightarrow> Inl e
                     | Inr ds \<Rightarrow> Inr (d # ds))))"

text \<open>
  The domain one URL contributes to that list, if it contributes one and nothing
  raises.
\<close>

definition url_domain :: "tldextract option \<Rightarrow> (string \<Rightarrow> exn + string) \<Rightarrow> string \<Rightarrow> string option" where
  "url_domain lib nl u =
     (case nl u of
        Inl e \<Rightarrow> None
      | Inr n \<Rightarrow> if n = [] then None
                 else (case reg_domain lib n of Inl e \<Rightarrow> None | Inr d \<Rightarrow> Some d))"

text \<open>
  \<^verbatim>\<open>URL_RE = re.compile(r"https?://[^\s'\";,]+", re.I)\<close> is what the scan of the HAR file
  takes for a URL in a header value. Its first part, the scheme and \<open>://\<close>, in any
  letter case:
\<close>

definition url_re_prefix :: "string \<Rightarrow> bool" where
  "url_re_prefix u = (startswith (lower u) ''http://'' \<or> startswith (lower u) ''https://'')"

text \<open>
  \<^verbatim>\<open>collections.Counter\<close> is a dictionary, which keeps its keys in the order of their
  first insertion: an association list in that order. \<open>counter_add\<close> is
  \<^verbatim>\<open>c[k] += 1\<close>, \<open>Counter\<close> counts the elements of a list from left to right.
\<close>

fun counter_add :: "'a \<Rightarrow> ('a \<times> nat) list \<Rightarrow> ('a \<times> nat) list" where
  "counter_add k [] = [(k, 1)]"
| "counter_add k ((k', n) # kvs) =
     (if k = k' then (k', n + 1) # kvs else (k', n) # counter_add k kvs)"

definition Counter :: "'a list \<Rightarrow> ('a \<times> nat) list" where
  "Counter xs = foldl (\<lambda>c k. counter_add k c) [] xs"

text \<open>
  \<^verbatim>\<open>sorted(xs, key=key, reverse=True)\<close>: Python reverses the list, sorts it stably and
  reverses the result, so that elements with equal keys keep their original order.
\<close>

definition sorted_reverse :: "('a \<Rightarrow> nat) \<Rightarrow> 'a list \<Rightarrow> 'a list" where
  "sorted_reverse key xs = rev (sort_key key (rev xs))"

text \<open>\<^verbatim>\<open>Counter.most_common()\<close> is \<^verbatim>\<open>sorted(self.items(), key=itemgetter(1), reverse=True)\<close>.\<close>

definition most_common :: "('a \<times> nat) list \<Rightarrow> ('a \<times> nat) list" where
  "most_common c = sorted_reverse snd c"

text \<open>The position at which a value first occurs in a list (its length when it does not).\<close>

definition first_index :: "'a list \<Rightarrow> 'a \<Rightarrow> nat" where
  "first_index xs x = length (takeWhile (\<lambda>y. y \<noteq> x) xs)"

section \<open>Output path\<close>

text \<open>
  A \<^verbatim>\<open>pathlib\<close> path under the root is the list of its components.
  \<^verbatim>\<open>HAR_DIR / name\<close> with a relative \<open>name\<close> appends the components of \<open>name\<close>:
  the pieces between slashes, without the empty ones and the \<open>.\<close> ones. The name
  main joins starts with \<open>p\<close>, so it is always relative.
\<close>

type_synonym path = "string list"

definition HAR_DIR :: path where
  "HAR_DIR = [''home'', ''chris'', ''openpilot'', ''tools'', ''bin'']"

definition path_parts :: "string \<Rightarrow> string list" where
  "path_parts name = filter (\<lambda>p. p \<noteq> [] \<and> p \<noteq> ''.'') (split CHR ''/'' name)"

text \<open>\<^verbatim>\<open>f"pmtproc_{slug}_monitor.har"\<close>\<close>

definition har_name :: "string \<Rightarrow> string" where
  "har_name slug = ''pmtproc_'' @ slug @ ''_monitor.har''"

definition har_path :: "string \<Rightarrow> path" where
  "har_path slug = HAR_DIR @ path_parts (har_name slug)"

text \<open>\<^verbatim>\<open>path.parent\<close> and \<^verbatim>\<open>str(path)\<close>\<close>

definition parent :: "path \<Rightarrow> path" where
  "parent p = butlast p"

definition path_str :: "path \<Rightarrow> string" where
  "path_str p = (if p = [] then ''/'' else concat (map (\<lambda>c. ''/'' @ c) p))"

section \<open>Capture session\<close>

text \<open>
  The state main and its callbacks share: the \<^verbatim>\<open>threading.Event\<close>, whether the
  browser context is still open, the lines printed so far, and how many times the
  shutdown sequence of main has run.
\<close>

record session =
  stop_event :: bool
  ctx_open :: bool
  stdout :: "string list"
  teardowns :: nat

definition session0 :: session where
  "session0 = \<lparr>stop_event = False, ctx_open = True, stdout = [], teardowns = 0\<rparr>"

definition print :: "string \<Rightarrow> session \<Rightarrow> session" where
  "print line s = s\<lparr>stdout := stdout s @ [line]\<rparr>"

text \<open>The UTF-8 bytes of the characters outside ASCII that the messages use.\<close>

definition ellipsis :: string where
  "ellipsis = [CHR 0xE2, CHR 0x80, CHR 0xA6]"

definition en_dash :: string where
  "en_dash = [CHR 0xE2, CHR 0x80, CHR 0x93]"

definition arrow :: string where
  "arrow = [CHR 0xE2, CHR 0x86, CHR 0x92]"

definition bullet :: string where
  "bullet = [CHR 0xE2, CHR 0x80, CHR 0xA2]"

definition apostrophe :: string where
  "apostrophe = [CHR 0x27]"

text \<open>
  \<^verbatim>\<open>ctx.close()\<close> closes the context, which writes the HAR; on a context that is
  already closed the library may raise. \<open>safe_close_context\<close> swallows that.
\<close>

definition ctx_close :: "session \<Rightarrow> exn + session" where
  "ctx_close s = (if ctx_open s then Inr (s\<lparr>ctx_open := False\<rparr>) else Inl LibraryError)"

definition safe_close_context :: "session \<Rightarrow> session" where
  "safe_close_context s = (case ctx_close s of Inr s' \<Rightarrow> s' | Inl e \<Rightarrow> s)"

text \<open>\<^verbatim>\<open>stop_event.set()\<close>\<close>

definition event_set :: "session \<Rightarrow> session" where
  "event_set s = s\<lparr>stop_event := True\<rparr>"

definition on_browser_disconnected :: "session \<Rightarrow> session" where
  "on_browser_disconnected s = event_set (print ''[debug] Browser disconnected event.'' s)"

definition on_page_close :: "session \<Rightarrow> session" where
  "on_page_close s =
     event_set (safe_close_context
       (print (''[debug] Page closed '' @ en_dash @ '' flushing HAR '' @ ellipsis) s))"

text \<open>
  What can happen while main waits: the two callbacks registered with the browser
  library, and the operator's CTRL-C, which raises \<^verbatim>\<open>KeyboardInterrupt\<close> in main.
\<close>

datatype event = PageClose | BrowserDisconnected | KeyboardInterrupt

text \<open>
  \<^verbatim>\<open>while not stop_event.wait(timeout=0.2): pass\<close> inside
  \<^verbatim>\<open>try ... except KeyboardInterrupt\<close>, run against the events that arrive, in
  order. The loop ends when the flag is set or at a CTRL-C; \<open>None\<close> is a loop that
  waits forever, the events used up and the flag not set.
\<close>

fun wait_loop :: "event list \<Rightarrow> session \<Rightarrow> session option" where
  "wait_loop [] s = (if stop_event s then Some s else None)"
| "wait_loop (e # es) s =
     (if stop_event s then Some s
      else (case e of
              PageClose \<Rightarrow> wait_loop es (on_page_close s)
            | BrowserDisconnected \<Rightarrow> wait_loop es (on_browser_disconnected s)
            | KeyboardInterrupt \<Rightarrow>
                Some (print (''[warn] CTRL-C detected '' @ en_dash @ '' shutting down '' @ ellipsis) s)))"

text \<open>
  The shutdown sequence of main: the context is closed (errors swallowed), then the
  browser, the driver is stopped and stray processes are killed; of these only the
  context is part of the state.
\<close>

definition shutdown :: "session \<Rightarrow> session" where
  "shutdown s =
     (let s1 = print (''[info] Flushing HAR and cleaning up '' @ ellipsis) s;
          s2 = safe_close_context s1
      in s2\<lparr>teardowns := teardowns s2 + 1\<rparr>)"

section \<open>The program\<close>

text \<open>
  What a run of main meets outside the program: the command line, the optional
  library, the URL parser of the standard library, whether \<^verbatim>\<open>page.goto\<close> raised
  (with the error's text), the events while main waits, the request URLs that
  matched the payment pattern during the session, the size of the HAR file at the
  end (\<open>None\<close> when the file does not exist), and what the scan of the HAR file
  appends to the matches, with the text of the exception that stopped it, if any.
  The other calls into the browser library and into the operating system, and the
  creation of the output directory when the module is loaded, are taken to return.
\<close>

record world =
  argv :: "string list"
  tx :: "tldextract option"
  netloc_of :: "string \<Rightarrow> exn + string"
  goto_error :: "string option"
  events :: "event list"
  live_urls :: "string list"
  har_size :: "nat option"
  scan_urls :: "string list"
  scan_error :: "string option"

text \<open>
  How a run ends: \<^verbatim>\<open>sys.exit(n)\<close>, or an exception nothing catches, after which the
  interpreter prints a traceback and the exit status is 1.
\<close>

datatype ending = SysExit nat | Uncaught exn

fun exit_status :: "ending \<Rightarrow> nat" where
  "exit_status (SysExit n) = n"
| "exit_status (Uncaught e) = 1"

fun str_nat :: "nat \<Rightarrow> string" where
  "str_nat n =
     (if n < 10 then [char_of (48 + n)] else str_nat (n div 10) @ [char_of (48 + n mod 10)])"

text \<open>Lines 209 to 238: the message about the HAR file and the scan of the file.\<close>

definition har_report :: "world \<Rightarrow> path \<Rightarrow> session \<Rightarrow> session" where
  "har_report w hp s =
     (case har_size w of
        Some n \<Rightarrow>
          (let s1 = print (''[info] HAR successfully written '' @ arrow @ '' '' @ path_str hp @
                           '' ('' @ str_nat n @ '' bytes)'') s
           in case scan_error w of
                Some e \<Rightarrow> print (''[warn] Could not parse HAR for extra matches: '' @ e) s1
              | None \<Rightarrow> s1)
      | None \<Rightarrow>
          print (''[error] Expected HAR file '' @ apostrophe @ path_str hp @ apostrophe @
                 '' was NOT created!'') s)"

definition matched_urls :: "world \<Rightarrow> string list" where
  "matched_urls w = live_urls w @ (if har_size w \<noteq> None then scan_urls w else [])"

text \<open>\<^verbatim>\<open>0 if har_path.exists() else 1\<close>\<close>

definition har_exit_code :: "world \<Rightarrow> nat" where
  "har_exit_code w = (if har_size w \<noteq> None then 0 else 1)"

definition domain_line :: "string \<times> nat \<Rightarrow> string" where
  "domain_line r =
     (case r of (dm, cnt) \<Rightarrow>
        '' '' @ bullet @ '' '' @ dm @ ''  ('' @ str_nat cnt @ '' request'' @
        (if cnt \<noteq> 1 then ''s'' else []) @ '')'')"

definition url_line :: "string \<Rightarrow> string" where
  "url_line u = '' '' @ bullet @ '' '' @ u"

text \<open>Lines 240 to 258: the summary and the exit.\<close>

definition final_report :: "world \<Rightarrow> session \<Rightarrow> session \<times> ending" where
  "final_report w s =
     (if matched_urls w \<noteq> [] then
        (let uniq = unique_urls (matched_urls w)
         in case domains_of (tx w) (netloc_of w) uniq of
              Inl e \<Rightarrow> (s, Uncaught e)
            | Inr domains \<Rightarrow>
                (let domain_counts = Counter domains;
                     s1 = print ''== Payment-processor domains detected =='' (print [] s);
                     s2 = fold print (map domain_line (most_common domain_counts)) s1;
                     s3 = print ''== Matching request URLs =='' (print [] s2);
                     s4 = fold print (map url_line uniq) s3
                 in (s4, SysExit (har_exit_code w))))
      else
        (print ''No matching payment URLs captured. HAR saved for manual inspection.'' (print [] s),
         SysExit (har_exit_code w)))"

definition usage :: string where
  "usage = ''Usage: pmtproc.py <slug|url>''"

text \<open>Lines 117 to 169: the two messages before the page is opened.\<close>

definition announce :: "string \<Rightarrow> session" where
  "announce slug =
     (let har_path = har_path slug;
          s1 = print (''[info] HAR will be saved to: '' @ path_str har_path) session0;
          url = ''https://www.givesendgo.com/'' @ slug
      in print (''[info] Opening '' @ url @ '' '' @ ellipsis) s1)"

text \<open>
  Lines 170 to 184: when \<^verbatim>\<open>page.goto\<close> raises, the error is printed and main does
  not wait; otherwise main waits in the loop.
\<close>

definition browse :: "world \<Rightarrow> session \<Rightarrow> session option" where
  "browse w s =
     (case goto_error w of
        Some e \<Rightarrow> Some (print (''[error] Couldn'' @ apostrophe @ ''t load page: '' @ e) s)
      | None \<Rightarrow>
          wait_loop (events w)
            (print (''[info] Window is ready '' @ en_dash @ '' close it when you'' @
                    apostrophe @ ''re done '' @ ellipsis @ '' (Press CTRL-C to abort)'')
              (print ''[info] Page loaded. Do whatever you need, then simply close the window.'' s)))"

definition main :: "world \<Rightarrow> (session \<times> ending) option" where
  "main w =
     (if length (argv w) < 2 then Some (print usage session0, SysExit 1)
      else
        (let slug = extract_slug (argv w ! 1)
         in case browse w (announce slug) of
              None \<Rightarrow> None
            | Some s \<Rightarrow>
                Some (final_report w (har_report w (har_path slug) (shutdown s)))))"

section \<open>Example runs\<close>

text \<open>
  Instances of the parameters for the examples below: a library that answers
  \<open>stripe\<close> and \<open>com\<close>, a URL parser that returns the text between the \<open>://\<close> of an
  http or https URL and the next \<open>/\<close>, \<open>?\<close> or \<open>#\<close>, and a run in which the operator
  closes the page after one request to a payment processor.
\<close>

definition example_tx :: tldextract where
  "example_tx host = Inr \<lparr>domain = ''stripe'', suffix = ''com''\<rparr>"

definition example_netloc :: "string \<Rightarrow> exn + string" where
  "example_netloc u =
     Inr (takeWhile (\<lambda>c. c \<notin> set ''/?#'') (drop (if startswith u ''https://'' then 8 else 7) u))"

definition example_world :: world where
  "example_world =
     \<lparr>argv = [''pmtproc.py'', ''https://www.givesendgo.com/abc''],
      tx = None,
      netloc_of = example_netloc,
      goto_error = None,
      events = [PageClose],
      live_urls = [''https://js.stripe.com/v3''],
      har_size = Some 1234,
      scan_urls = [],
      scan_error = None\<rparr>"

text \<open>
  The library as reg_domain calls it: the \<^verbatim>\<open>extract\<close> function of tldextract has no
  parameter \<^verbatim>\<open>include_psl\<close>, and a call with a keyword the function does not have
  raises \<^verbatim>\<open>TypeError\<close>.
\<close>

definition unusable_tx :: tldextract where
  "unusable_tx host = Inl LibraryError"

text \<open>The lines of the output that start with a bullet: the rows of the two lists of the report.\<close>

definition bullet_lines :: "string list \<Rightarrow> string list" where
  "bullet_lines ls = filter (\<lambda>l. startswith l ('' '' @ bullet)) ls"

section \<open>Properties of the string functions\<close>

lemma lower_char_idem: "lower_char (lower_char c) = lower_char c"
proof -
  have "of_char c < (256::nat)" by simp
  then show ?thesis by (simp add: lower_char_def less_eq_char_def)
qed

text \<open>A character that is not a small letter after the mapping was not changed by it.\<close>

lemma lower_char_fixed:
  assumes "lower_char c = d" "\<not> (CHR ''a'' \<le> d \<and> d \<le> CHR ''z'')"
  shows "c = d"
proof (rule ccontr)
  assume "c \<noteq> d"
  with assms(1) have up: "CHR ''A'' \<le> c" "c \<le> CHR ''Z''"
    and d: "d = char_of (of_char c + (32::nat))"
    by (auto simp: lower_char_def split: if_splits)
  from up have range: "65 \<le> (of_char c :: nat)" "(of_char c :: nat) \<le> 90"
    by (simp_all add: less_eq_char_def)
  then have "(of_char d :: nat) = of_char c + 32" unfolding d by simp
  with range assms(2) show False
    by (simp add: less_eq_char_def)
qed

lemma lower_lower: "lower (lower s) = lower s"
  by (simp add: lower_def lower_char_idem)

lemma lower_fixed_iff: "lower s = s \<longleftrightarrow> (\<forall>c\<in>set s. lower_char c = c)"
  by (simp add: lower_def map_idI) (metis map_eq_conv map_ident)

lemma lower_append: "lower (xs @ ys) = lower xs @ lower ys"
  by (simp add: lower_def)

lemma dot_in_lower: "CHR ''.'' \<in> set (lower s) \<longleftrightarrow> CHR ''.'' \<in> set s"
proof
  assume "CHR ''.'' \<in> set (lower s)"
  then obtain c where c: "c \<in> set s" "lower_char c = CHR ''.''" by (auto simp: lower_def)
  then have "c = CHR ''.''" by (rule_tac lower_char_fixed) (simp_all add: less_eq_char_def)
  with c show "CHR ''.'' \<in> set s" by simp
next
  assume "CHR ''.'' \<in> set s"
  then have "lower_char CHR ''.'' \<in> set (lower s)" by (simp add: lower_def)
  then show "CHR ''.'' \<in> set (lower s)" by (simp add: lower_char_def less_eq_char_def)
qed

lemma rstrip_prefix: "\<exists>t. a = rev (dropWhile P (rev a)) @ t"
proof -
  have "rev a = takeWhile P (rev a) @ dropWhile P (rev a)" by simp
  then have "a = rev (takeWhile P (rev a) @ dropWhile P (rev a))" by (metis rev_rev_ident)
  then show ?thesis by (metis rev_append)
qed

lemma strip_idem: "strip (strip s) = strip s"
proof -
  define a where "a = dropWhile is_space s"
  define b where "b = rev (dropWhile is_space (rev a))"
  have sb: "strip s = b" by (simp add: strip_def a_def b_def)
  obtain t where t: "a = b @ t" unfolding b_def using rstrip_prefix by blast
  have "dropWhile is_space b = b"
  proof (cases b)
    case Nil
    then show ?thesis by simp
  next
    case (Cons c cs)
    with t have "a \<noteq> []" "hd a = c" by simp_all
    then have "\<not> is_space c" unfolding a_def using hd_dropWhile by blast
    with Cons show ?thesis by simp
  qed
  moreover have "dropWhile is_space (rev b) = rev b"
    by (simp add: b_def)
  ultimately show ?thesis by (simp add: sb) (simp add: strip_def)
qed

lemma strip_sublist: "\<exists>p q. s = p @ strip s @ q"
proof -
  obtain t where t: "dropWhile is_space s = strip s @ t"
    unfolding strip_def using rstrip_prefix by blast
  have "s = takeWhile is_space s @ dropWhile is_space s" by simp
  with t show ?thesis by metis
qed

lemma split_not_Nil: "split d s \<noteq> []"
  by (induction s) (auto split: list.splits)

lemma split_no_sep: "d \<notin> set s \<Longrightarrow> split d s = [s]"
  by (induction s) auto

lemma split_at_sep: "d \<notin> set x \<Longrightarrow> split d (x @ d # rest) = x # split d rest"
  by (induction x) auto

lemma split_append_no_sep:
  "d \<notin> set b \<Longrightarrow> split d (s @ b) = butlast (split d s) @ [last (split d s) @ b]"
proof (induction s)
  case Nil
  then show ?case by (simp add: split_no_sep)
next
  case (Cons c s)
  obtain q qs where q: "split d s = q # qs"
    using split_not_Nil[of d s] by (cases "split d s") auto
  show ?case
  proof (cases qs)
    case Nil
    with q Cons show ?thesis by simp
  next
    case (Cons q' qs')
    with q Cons.IH[OF Cons.prems] show ?thesis by simp
  qed
qed

lemma last_split_append: "d \<notin> set b \<Longrightarrow> last (split d (s @ b)) = last (split d s) @ b"
  by (simp add: split_append_no_sep)

lemma set_split: "p \<in> set (split d s) \<Longrightarrow> set p \<subseteq> set s"
proof (induction s arbitrary: p)
  case Nil
  then show ?case by simp
next
  case (Cons c cs)
  then show ?case
    by (fastforce split: if_splits list.splits)
qed

lemma length_split_sep: "2 \<le> length (split d s) \<Longrightarrow> d \<in> set s"
  using split_no_sep[of d s] by fastforce

lemma set_join: "set (join sep ps) \<subseteq> set sep \<union> (\<Union>p\<in>set ps. set p)"
  by (induction sep ps rule: join.induct) auto

lemma set_last_n: "set (last_n n xs) \<subseteq> set xs"
  by (simp add: last_n_def set_drop_subset)

lemma set_lstrip: "set (lstrip cs s) \<subseteq> set s"
  by (auto simp: lstrip_def dest: set_dropWhileD)

section \<open>Properties of the slug extraction\<close>

lemma length_slug_literal: "length slug_literal = 15"
  by (simp add: slug_literal_def)

lemma lower_slug_literal_length: "lower g = slug_literal \<Longrightarrow> length g = 15"
  by (metis length_map length_slug_literal lower_def)

lemma takeWhile_slug:
  assumes "\<forall>c\<in>set X. slug_char c" "rest = [] \<or> \<not> slug_char (hd rest)"
  shows "takeWhile slug_char (X @ rest) = X"
  using assms by (cases rest) (auto simp: takeWhile_append2)

lemma match_here_occurrence:
  assumes "lower g = slug_literal" "X \<noteq> []" "\<forall>c\<in>set X. slug_char c"
    "rest = [] \<or> \<not> slug_char (hd rest)"
  shows "match_here (g @ X @ rest) = Some X"
  using assms lower_slug_literal_length[OF assms(1)] takeWhile_slug[OF assms(3,4)]
  by (simp add: match_here_def length_slug_literal Let_def)

lemma re_search_hit: "match_here s = Some x \<Longrightarrow> re_search s = Some x"
  by (cases s) auto

lemma re_search_skip:
  assumes "\<forall>j<length pre. match_here (drop j (pre @ s)) = None"
  shows "re_search (pre @ s) = re_search s"
  using assms
proof (induction pre)
  case Nil
  then show ?case by simp
next
  case (Cons c pre)
  have "match_here (drop 0 ((c # pre) @ s)) = None"
    using Cons.prems by blast
  then have h: "match_here (c # pre @ s) = None" by simp
  have "\<forall>j<length pre. match_here (drop j (pre @ s)) = None"
  proof (intro allI impI)
    fix j assume "j < length pre"
    then have "Suc j < length (c # pre)" by simp
    then have "match_here (drop (Suc j) ((c # pre) @ s)) = None"
      using Cons.prems by blast
    then show "match_here (drop j (pre @ s)) = None" by simp
  qed
  then have "re_search (pre @ s) = re_search s" by (rule Cons.IH)
  with h show ?case by simp
qed

lemma match_here_slug_chars: "match_here s = Some x \<Longrightarrow> x \<noteq> [] \<and> (\<forall>c\<in>set x. slug_char c)"
  by (auto simp: match_here_def Let_def split: if_splits dest: set_takeWhileD)

lemma re_search_slug_chars: "re_search s = Some x \<Longrightarrow> x \<noteq> [] \<and> (\<forall>c\<in>set x. slug_char c)"
proof (induction s)
  case Nil
  then show ?case using match_here_slug_chars by simp
next
  case (Cons c cs)
  then show ?case using match_here_slug_chars[of "c # cs" x] by (auto split: option.splits)
qed

text \<open>The pattern only matches where there is a slash.\<close>

lemma match_here_slash: "match_here s = Some x \<Longrightarrow> CHR ''/'' \<in> set s"
proof -
  assume "match_here s = Some x"
  then have l: "lower (take 15 s) = slug_literal"
    by (simp add: match_here_def Let_def length_slug_literal split: if_splits)
  then have "length (take 15 s) = 15" by (rule lower_slug_literal_length)
  then have len: "14 < length s" by simp
  from l have "lower (take 15 s) ! 14 = CHR ''/''" by (simp add: slug_literal_def)
  then have "lower_char (s ! 14) = CHR ''/''" using len by (simp add: lower_def)
  then have "s ! 14 = CHR ''/''" by (rule lower_char_fixed) (simp add: less_eq_char_def)
  with len show ?thesis by (metis nth_mem)
qed

lemma re_search_slash: "re_search s = Some x \<Longrightarrow> CHR ''/'' \<in> set s"
proof (induction s)
  case Nil
  then show ?case using match_here_slash by fastforce
next
  case (Cons c cs)
  then show ?case using match_here_slash[of "c # cs"] by (auto split: option.splits)
qed

lemma match_here_append: "match_here s = Some x \<Longrightarrow> \<exists>y. match_here (s @ q) = Some y"
proof -
  assume m: "match_here s = Some x"
  then have l: "lower (take 15 s) = slug_literal" and g: "takeWhile slug_char (drop 15 s) \<noteq> []"
    by (simp_all add: match_here_def Let_def length_slug_literal split: if_splits)
  from l have "length (take 15 s) = 15" by (rule lower_slug_literal_length)
  then have len: "15 \<le> length s" by simp
  from g obtain c cs where "drop 15 s = c # cs" "slug_char c"
    by (cases "drop 15 s") (auto split: if_splits)
  then have "takeWhile slug_char (drop 15 s @ q) \<noteq> []" by simp
  with l len show ?thesis by (simp add: match_here_def Let_def length_slug_literal)
qed

lemma re_search_append: "re_search s = Some x \<Longrightarrow> \<exists>y. re_search (s @ q) = Some y"
proof (induction s)
  case Nil
  then show ?case by (simp add: match_here_def Let_def slug_literal_def lower_def)
next
  case (Cons c cs)
  show ?case
  proof (cases "match_here (c # cs)")
    case None
    with Cons show ?thesis by (cases "match_here (c # cs @ q)") auto
  next
    case (Some a)
    then obtain y where "match_here ((c # cs) @ q) = Some y" using match_here_append by blast
    then show ?thesis by simp
  qed
qed

lemma re_search_prepend: "re_search s = Some x \<Longrightarrow> \<exists>y. re_search (p @ s) = Some y"
  by (induction p) (auto split: option.splits)

lemma re_search_strip: "re_search s = None \<Longrightarrow> re_search (strip s) = None"
proof (rule ccontr)
  assume n: "re_search s = None" and "re_search (strip s) \<noteq> None"
  then obtain x where x: "re_search (strip s) = Some x" by auto
  obtain p q where s: "s = p @ strip s @ q" using strip_sublist by blast
  from x obtain y where "re_search (strip s @ q) = Some y"
    using re_search_append by blast
  then obtain z where "re_search (p @ strip s @ q) = Some z"
    using re_search_prepend by blast
  with s n show False by simp
qed

text \<open>Where the pattern does not match, a second application changes nothing.\<close>

lemma extract_slug_no_match_idem:
  "re_search s = None \<Longrightarrow> extract_slug (extract_slug s) = extract_slug s"
  by (simp add: extract_slug_def re_search_strip strip_idem)

text \<open>In general a second application trims the result of the first.\<close>

lemma extract_slug_twice: "extract_slug (extract_slug s) = strip (extract_slug s)"
proof (cases "re_search s")
  case None
  then show ?thesis by (simp add: extract_slug_no_match_idem) (simp add: extract_slug_def strip_idem)
next
  case (Some x)
  then have "\<forall>c\<in>set x. slug_char c" using re_search_slug_chars by blast
  then have "CHR ''/'' \<notin> set x" by (auto simp: slug_char_def)
  then have "re_search x = None" using re_search_slash by (cases "re_search x") auto
  with Some show ?thesis by (simp add: extract_slug_def)
qed

section \<open>Properties of the registrable domain\<close>

lemma set_last_two_labels: "set (last_two_labels s) \<subseteq> set s"
proof (cases "2 \<le> length (split CHR ''.'' s)")
  case True
  have "set (join ''.'' (last_n 2 (split CHR ''.'' s))) \<subseteq> set s"
  proof
    fix c assume "c \<in> set (join ''.'' (last_n 2 (split CHR ''.'' s)))"
    then consider "c = CHR ''.''" | p where "p \<in> set (last_n 2 (split CHR ''.'' s))" "c \<in> set p"
      using set_join[of "''.''" "last_n 2 (split CHR ''.'' s)"] by auto
    then show "c \<in> set s"
    proof cases
      case 1
      then show ?thesis using True length_split_sep by simp
    next
      case 2
      from 2(1) have "p \<in> set (split CHR ''.'' s)"
        using set_last_n[of 2 "split CHR ''.'' s"] by (rule_tac subsetD)
      then have "set p \<subseteq> set s" by (rule set_split)
      with 2(2) show ?thesis by (rule_tac subsetD)
    qed
  qed
  with True show ?thesis by (simp add: last_two_labels_def Let_def)
next
  case False
  then show ?thesis by (simp add: last_two_labels_def Let_def)
qed

lemma lower_lstrip: "lower (lstrip cs (lower s)) = lstrip cs (lower s)"
  unfolding lower_fixed_iff
  using set_lstrip[of cs "lower s"] by (auto simp: lower_def lower_char_idem)

lemma lower_last_two_labels: "lower s = s \<Longrightarrow> lower (last_two_labels s) = last_two_labels s"
  unfolding lower_fixed_iff using set_last_two_labels[of s] by blast

text \<open>The three hosts the specification gives as examples.\<close>

lemma reg_domain_examples:
  "reg_domain None ''js.stripe.com'' = Inr ''stripe.com''"
  "reg_domain None ''www.paypal.com'' = Inr ''paypal.com''"
  "reg_domain None ''checkout.adyen.com'' = Inr ''adyen.com''"
  by code_simp+

lemma startswith_append: "startswith s p \<Longrightarrow> s = p @ drop (length p) s"
  unfolding startswith_def by (metis append_take_drop_id)

lemma lstrip_append_all: "set p \<subseteq> set cs \<Longrightarrow> lstrip cs (p @ s) = lstrip cs s"
  by (induction p) (auto simp: lstrip_def)

text \<open>
  Without the library, reg_domain agrees with the specification's function on a lower
  case host whose first character, after the \<open>www.\<close> label if there is one, is neither
  \<open>w\<close> nor a dot.
\<close>

lemma reg_domain_agrees_with_spec:
  assumes "lower host = host"
    and "strip_www_label host = [] \<or> hd (strip_www_label host) \<notin> set ''www.''"
  shows "reg_domain None host = Inr (registrable_domain_spec host)"
proof -
  let ?r = "strip_www_label host"
  have keep: "lstrip ''www.'' ?r = ?r"
    using assms(2) by (cases ?r) (auto simp: lstrip_def)
  have "lstrip ''www.'' host = ?r"
  proof (cases "startswith host ''www.''")
    case True
    then have "host = ''www.'' @ drop (length ''www.'') host"
      by (rule startswith_append)
    moreover have "length ''www.'' = 4" by simp
    ultimately have "host = ''www.'' @ drop 4 host" by (simp only:)
    then have "lstrip ''www.'' host = lstrip ''www.'' (''www.'' @ drop 4 host)" by (simp only:)
    also have "\<dots> = lstrip ''www.'' (drop 4 host)"
      by (rule lstrip_append_all) simp
    finally have "lstrip ''www.'' host = lstrip ''www.'' (drop 4 host)" .
    with True keep show ?thesis by (simp add: strip_www_label_def)
  next
    case False
    with keep show ?thesis by (simp add: strip_www_label_def)
  qed
  with assms(1) show ?thesis
    by (simp add: reg_domain_def registrable_domain_spec_def)
qed

section \<open>Properties of the counter and of the sort\<close>

lemma Counter_snoc: "Counter (xs @ [k]) = counter_add k (Counter xs)"
  by (simp add: Counter_def)

lemma keys_counter_add:
  "map fst (counter_add k c) = (if k \<in> fst ` set c then map fst c else map fst c @ [k])"
  by (induction c) (force+)

lemma map_of_counter_add:
  "map_of (counter_add k c) =
     (map_of c)(k \<mapsto> (case map_of c k of None \<Rightarrow> 1 | Some n \<Rightarrow> n + 1))"
  by (induction c) auto

lemma keys_Counter: "set (map fst (Counter xs)) = set xs"
proof (induction xs rule: rev_induct)
  case Nil
  then show ?case by (simp add: Counter_def)
next
  case (snoc k xs)
  then have "fst ` set (Counter xs) = set xs" by simp
  then show ?case
    by (auto simp: Counter_snoc keys_counter_add)
qed

lemma distinct_keys_Counter: "distinct (map fst (Counter xs))"
proof (induction xs rule: rev_induct)
  case Nil
  then show ?case by (simp add: Counter_def)
next
  case (snoc k xs)
  then show ?case by (simp add: Counter_snoc keys_counter_add)
qed

lemma map_of_Counter:
  "map_of (Counter xs) k = (if k \<in> set xs then Some (count_list xs k) else None)"
proof (induction xs arbitrary: k rule: rev_induct)
  case Nil
  then show ?case by (simp add: Counter_def)
next
  case (snoc x xs)
  then show ?case by (auto simp add: Counter_snoc map_of_counter_add)
qed

lemma Counter_counts: "(k, n) \<in> set (Counter xs) \<Longrightarrow> n = count_list xs k"
  using map_of_Counter[of xs k] distinct_keys_Counter[of xs]
  by (auto split: if_splits)

lemma set_Counter: "set (Counter ds) = (\<lambda>d. (d, count_list ds d)) ` set ds"
proof (intro set_eqI iffI)
  fix r assume "r \<in> set (Counter ds)"
  then have "snd r = count_list ds (fst r)" "fst r \<in> set ds"
    using Counter_counts[of "fst r" "snd r" ds] keys_Counter[of ds] by auto
  then show "r \<in> (\<lambda>d. (d, count_list ds d)) ` set ds"
    by (metis (mono_tags, lifting) image_iff prod.collapse)
next
  fix r assume "r \<in> (\<lambda>d. (d, count_list ds d)) ` set ds"
  then obtain d where d: "d \<in> set ds" "r = (d, count_list ds d)" by auto
  then have "map_of (Counter ds) d = Some (count_list ds d)" by (simp add: map_of_Counter)
  then show "r \<in> set (Counter ds)" using d by (simp add: map_of_SomeD)
qed

lemma first_index_snoc_old: "x \<in> set xs \<Longrightarrow> first_index (xs @ [k]) x = first_index xs x"
  by (simp add: first_index_def takeWhile_append1)

lemma first_index_less: "x \<in> set xs \<Longrightarrow> first_index xs x < length xs"
  unfolding first_index_def by (induction xs) auto

lemma first_index_snoc_new: "k \<notin> set xs \<Longrightarrow> first_index (xs @ [k]) k = length xs"
  by (induction xs) (auto simp: first_index_def)

text \<open>The counter lists its keys in the order of their first occurrence.\<close>

lemma Counter_discovery_order:
  "sorted_wrt (\<lambda>a b. first_index xs (fst a) < first_index xs (fst b)) (Counter xs)"
proof (induction xs rule: rev_induct)
  case Nil
  then show ?case by (simp add: Counter_def)
next
  case (snoc k xs)
  let ?R = "\<lambda>ys a b. first_index ys a < first_index ys b"
  have keys: "set (map fst (Counter xs)) = set xs" by (rule keys_Counter)
  have old: "sorted_wrt (?R (xs @ [k])) (map fst (Counter xs))"
  proof -
    have "sorted_wrt (?R xs) (map fst (Counter xs))"
      using snoc by (simp add: sorted_wrt_map)
    then show ?thesis
      by (rule sorted_wrt_mono_rel[rotated]) (use keys in \<open>simp add: first_index_snoc_old\<close>)
  qed
  have "sorted_wrt (?R (xs @ [k])) (map fst (Counter (xs @ [k])))"
  proof (cases "k \<in> set xs")
    case True
    then show ?thesis using old keys by (simp add: Counter_snoc keys_counter_add)
  next
    case False
    have "\<forall>a\<in>set xs. ?R (xs @ [k]) a k"
      using False by (simp add: first_index_snoc_new first_index_snoc_old first_index_less)
    then show ?thesis
      using old keys False by (simp add: Counter_snoc keys_counter_add sorted_wrt_append)
  qed
  then show ?case by (simp add: sorted_wrt_map)
qed

text \<open>
  Inserting an element that stands before all others in the original order keeps a
  list sorted by key, with the original order among equal keys.
\<close>

lemma insort_key_lex:
  assumes "sorted_wrt (\<lambda>a b. f a < f b \<or> (f a = f b \<and> R a b)) zs" "\<forall>z\<in>set zs. R y z"
  shows "sorted_wrt (\<lambda>a b. f a < f b \<or> (f a = f b \<and> R a b)) (insort_key f y zs)"
  using assms
proof (induction zs)
  case Nil
  then show ?case by simp
next
  case (Cons z zs)
  show ?case
  proof (cases "f y \<le> f z")
    case True
    then show ?thesis using Cons.prems by (auto simp: le_less)
  next
    case False
    then show ?thesis using Cons by (auto simp: set_insort_key)
  qed
qed

lemma sort_key_lex:
  "sorted_wrt R ys \<Longrightarrow> sorted_wrt (\<lambda>a b. f a < f b \<or> (f a = f b \<and> R a b)) (sort_key f ys)"
proof (induction ys)
  case Nil
  then show ?case by simp
next
  case (Cons y ys)
  then show ?case by (simp add: insort_key_lex)
qed

lemma sorted_reverse_lex:
  assumes "sorted_wrt R xs"
  shows "sorted_wrt (\<lambda>a b. key b < key a \<or> (key a = key b \<and> R a b)) (sorted_reverse key xs)"
proof -
  have "sorted_wrt (\<lambda>a b. R b a) (rev xs)"
    using assms by (simp add: sorted_wrt_rev)
  then have "sorted_wrt (\<lambda>a b. key a < key b \<or> (key a = key b \<and> R b a)) (sort_key key (rev xs))"
    by (rule sort_key_lex)
  then show ?thesis
    unfolding sorted_reverse_def sorted_wrt_rev
    by (rule sorted_wrt_mono_rel[rotated]) auto
qed

lemma set_most_common: "set (most_common c) = set c"
  by (simp add: most_common_def sorted_reverse_def)

text \<open>
  The rows of \<open>most_common\<close>: one for each key with the number of its occurrences, in
  descending order of that number, equal numbers in the order of first occurrence.
\<close>

lemma most_common_order:
  "sorted_wrt
     (\<lambda>a b. snd b < snd a \<or> (snd a = snd b \<and> first_index ds (fst a) < first_index ds (fst b)))
     (most_common (Counter ds)) \<and>
   set (most_common (Counter ds)) = (\<lambda>d. (d, count_list ds d)) ` set ds \<and>
   distinct (map fst (most_common (Counter ds)))"
proof (intro conjI)
  show "sorted_wrt
     (\<lambda>a b. snd b < snd a \<or> (snd a = snd b \<and> first_index ds (fst a) < first_index ds (fst b)))
     (most_common (Counter ds))"
    unfolding most_common_def by (rule sorted_reverse_lex) (rule Counter_discovery_order)
  show "set (most_common (Counter ds)) = (\<lambda>d. (d, count_list ds d)) ` set ds"
    by (simp add: set_most_common set_Counter)
  have "distinct (Counter ds) \<and> inj_on fst (set (Counter ds))"
    using distinct_keys_Counter[of ds] by (simp add: distinct_map)
  then show "distinct (map fst (most_common (Counter ds)))"
    by (simp add: distinct_map most_common_def sorted_reverse_def)
qed

lemma most_common_example:
  "most_common (Counter [''paypal.com'', ''stripe.com'', ''adyen.com'', ''stripe.com'']) =
     [(''stripe.com'', 2), (''paypal.com'', 1), (''adyen.com'', 1)]"
  by code_simp

section \<open>Properties of the output path\<close>

lemma path_parts_plain:
  assumes "CHR ''/'' \<notin> set t"
  shows "path_parts (har_name t) = [har_name t]"
proof -
  have "CHR ''/'' \<notin> set (har_name t)" using assms by (simp add: har_name_def)
  then have "split CHR ''/'' (har_name t) = [har_name t]" by (rule split_no_sep)
  then show ?thesis by (simp add: path_parts_def har_name_def)
qed

lemma path_parts_nested:
  assumes "CHR ''/'' \<in> set t"
  shows "2 \<le> length (path_parts (har_name t))"
proof -
  from assms obtain t1 t2 where t: "t = t1 @ CHR ''/'' # t2" "CHR ''/'' \<notin> set t1"
    using split_list_first[of "CHR ''/''" t] by blast
  let ?x = "''pmtproc_'' @ t1"
  let ?rest = "t2 @ ''_monitor.har''"
  let ?ps = "split CHR ''/'' ?rest"
  have sp: "split CHR ''/'' (har_name t) = ?x # ?ps"
    using t split_at_sep[of "CHR ''/''" ?x ?rest] by (simp add: har_name_def)
  have ne: "?ps \<noteq> []" by (rule split_not_Nil)
  have "last ?ps = last (split CHR ''/'' t2) @ ''_monitor.har''"
    by (rule last_split_append) simp
  then have l: "last ?ps \<noteq> []" "last ?ps \<noteq> ''.''"
    by (simp_all add: append_eq_Cons_conv)
  have "last ?ps \<in> set (filter (\<lambda>p. p \<noteq> [] \<and> p \<noteq> ''.'') ?ps)"
    using ne l by simp
  then have "0 < length (filter (\<lambda>p. p \<noteq> [] \<and> p \<noteq> ''.'') ?ps)"
    by (rule length_pos_if_in_set)
  then have "1 \<le> length (filter (\<lambda>p. p \<noteq> [] \<and> p \<noteq> ''.'') ?ps)"
    by (simp only: One_nat_def Suc_le_eq)
  then show ?thesis by (simp add: path_parts_def sp)
qed

section \<open>Properties of the session\<close>

lemma print_fields [simp]:
  "stop_event (print l s) = stop_event s" "ctx_open (print l s) = ctx_open s"
  "teardowns (print l s) = teardowns s" "stdout (print l s) = stdout s @ [l]"
  by (simp_all add: print_def)

lemma safe_close_context_fields [simp]:
  "stop_event (safe_close_context s) = stop_event s" "ctx_open (safe_close_context s) = False"
  "teardowns (safe_close_context s) = teardowns s" "stdout (safe_close_context s) = stdout s"
  by (simp_all add: safe_close_context_def ctx_close_def)

lemma event_set_fields [simp]:
  "stop_event (event_set s) = True" "ctx_open (event_set s) = ctx_open s"
  "teardowns (event_set s) = teardowns s" "stdout (event_set s) = stdout s"
  by (simp_all add: event_set_def)

lemma shutdown_fields [simp]:
  "stop_event (shutdown s) = stop_event s" "teardowns (shutdown s) = teardowns s + 1"
  by (simp_all add: shutdown_def Let_def)

lemma fold_print_fields [simp]:
  "stop_event (fold print ls s) = stop_event s" "teardowns (fold print ls s) = teardowns s"
  by (induction ls arbitrary: s) simp_all

lemma handler_fields [simp]:
  "stop_event (on_page_close s)" "stop_event (on_browser_disconnected s)"
  "teardowns (on_page_close s) = teardowns s" "teardowns (on_browser_disconnected s) = teardowns s"
  by (simp_all add: on_page_close_def on_browser_disconnected_def)

lemma wait_loop_teardowns: "wait_loop es s = Some s' \<Longrightarrow> teardowns s' = teardowns s"
proof (induction es arbitrary: s)
  case Nil
  then show ?case by (simp split: if_splits)
next
  case (Cons e es)
  then show ?case by (cases e) (auto split: if_splits)
qed

lemma wait_loop_set: "stop_event s \<Longrightarrow> wait_loop es s = Some s"
  by (cases es) auto

text \<open>The wait ends as soon as the flag is set, and only a CTRL-C ends it otherwise.\<close>

lemma wait_loop_ends:
  assumes "wait_loop es s = Some s'"
  shows "stop_event s' \<or> KeyboardInterrupt \<in> set es"
  using assms
proof (induction es arbitrary: s)
  case Nil
  then show ?case by (simp split: if_splits)
next
  case (Cons e es)
  then show ?case by (cases e) (auto split: if_splits)
qed

lemma har_report_fields [simp]:
  "teardowns (har_report w hp s) = teardowns s" "stop_event (har_report w hp s) = stop_event s"
  by (simp_all add: har_report_def Let_def split: option.splits)

lemma final_report_fields [simp]:
  "teardowns (fst (final_report w s)) = teardowns s"
  "stop_event (fst (final_report w s)) = stop_event s"
  by (simp_all add: final_report_def Let_def split: sum.splits)

lemma announce_teardowns [simp]: "teardowns (announce slug) = 0"
  by (simp add: announce_def Let_def session0_def)

lemma browse_teardowns: "browse w s = Some s' \<Longrightarrow> teardowns s' = teardowns s"
  by (auto simp: browse_def split: option.splits dest: wait_loop_teardowns)

section \<open>Properties of the program\<close>

lemma main_cases:
  assumes "main w = Some (s, e)"
  obtains "length (argv w) < 2" "s = print usage session0" "e = SysExit 1"
  | s1 where "2 \<le> length (argv w)" "browse w (announce (extract_slug (argv w ! 1))) = Some s1"
      "final_report w (har_report w (har_path (extract_slug (argv w ! 1))) (shutdown s1)) = (s, e)"
  using assms by (auto simp: main_def Let_def split: if_splits option.splits)

text \<open>A run with an argument goes through the shutdown sequence once.\<close>

lemma main_teardowns:
  assumes "main w = Some (s, e)" "2 \<le> length (argv w)"
  shows "teardowns s = 1"
  using assms(1)
proof (cases rule: main_cases)
  case 1
  with assms(2) show ?thesis by simp
next
  case (2 s1)
  from 2(2) have "teardowns s1 = 0" by (auto dest: browse_teardowns)
  moreover from 2(3)
  have "s = fst (final_report w (har_report w (har_path (extract_slug (argv w ! 1))) (shutdown s1)))"
    by simp
  ultimately show ?thesis by simp
qed

lemma fold_print_stdout: "stdout (fold print ls s) = stdout s @ ls"
  by (induction ls arbitrary: s) simp_all

text \<open>
  What the summary prints when there are matches: the domain table in the order of
  \<open>most_common\<close>, then the unique URLs in their order.
\<close>

lemma final_report_stdout:
  assumes "matched_urls w \<noteq> []"
    and "domains_of (tx w) (netloc_of w) (unique_urls (matched_urls w)) = Inr ds"
  shows "stdout (fst (final_report w s)) =
           stdout s @ [[], ''== Payment-processor domains detected ==''] @
           map domain_line (most_common (Counter ds)) @
           [[], ''== Matching request URLs ==''] @
           map url_line (unique_urls (matched_urls w))"
  using assms by (simp add: final_report_def Let_def fold_print_stdout)

text \<open>
  The domains enter the counter in the order of the sorted unique URLs, not in the
  order in which the requests were captured.
\<close>

lemma domain_table_example:
  "unique_urls [''https://js.stripe.com/v3'', ''https://api.paypal.com/x''] =
     [''https://api.paypal.com/x'', ''https://js.stripe.com/v3'']"
  "domains_of None example_netloc [''https://api.paypal.com/x'', ''https://js.stripe.com/v3''] =
     Inr [''paypal.com'', ''stripe.com'']"
  "most_common (Counter [''paypal.com'', ''stripe.com'']) = [(''paypal.com'', 1), (''stripe.com'', 1)]"
  by code_simp+

text \<open>
  The unique URLs are the matched strings that start with \<open>http\<close>, each once, in
  lexicographic order.
\<close>

lemma unique_urls_filter_dedup_sort:
  "set (unique_urls ms) = {u \<in> set ms. startswith u ''http''} \<and>
   distinct (unique_urls ms) \<and> sorted (unique_urls ms) \<and>
   unique_urls ms = sorted_list_of_set {u \<in> set ms. startswith u ''http''}"
proof -
  have "unique_urls ms = sorted_list_of_set (set (filter (\<lambda>u. startswith u ''http'') ms))"
    by (simp only: unique_urls_def sorted_list_of_set_sort_remdups)
  then have "unique_urls ms = sorted_list_of_set {u \<in> set ms. startswith u ''http''}"
    by simp
  moreover have "set (unique_urls ms) = {u \<in> set ms. startswith u ''http''}"
    by (simp add: unique_urls_def)
  moreover have "distinct (unique_urls ms)" "sorted (unique_urls ms)"
    by (simp_all add: unique_urls_def)
  ultimately show ?thesis by blast
qed

lemma domains_of_map_filter:
  "domains_of lib nl us = Inr ds \<Longrightarrow> ds = List.map_filter (url_domain lib nl) us"
proof (induction us arbitrary: ds)
  case Nil
  then show ?case by (simp add: List.map_filter_simps)
next
  case (Cons u us)
  then show ?case
    by (auto simp: List.map_filter_simps url_domain_def split: sum.splits if_splits)
qed

text \<open>A run with matches whose report does not raise ends its output with the two lists.\<close>

lemma main_report_stdout:
  assumes "main w = Some (s, e)" "2 \<le> length (argv w)" "matched_urls w \<noteq> []"
    and "domains_of (tx w) (netloc_of w) (unique_urls (matched_urls w)) = Inr ds"
  shows "\<exists>before. stdout s =
           before @ [[], ''== Payment-processor domains detected ==''] @
           map domain_line (most_common (Counter ds)) @
           [[], ''== Matching request URLs ==''] @
           map url_line (unique_urls (matched_urls w))"
  using assms(1)
proof (cases rule: main_cases)
  case 1
  with assms(2) show ?thesis by simp
next
  case (2 s1)
  let ?s0 = "har_report w (har_path (extract_slug (argv w ! 1))) (shutdown s1)"
  from 2(3) have "s = fst (final_report w ?s0)" by simp
  then have "stdout s =
           stdout ?s0 @ [[], ''== Payment-processor domains detected ==''] @
           map domain_line (most_common (Counter ds)) @
           [[], ''== Matching request URLs ==''] @
           map url_line (unique_urls (matched_urls w))"
    using final_report_stdout[OF assms(3,4), of ?s0] by simp
  then show ?thesis by blast
qed

lemma final_report_exit:
  "snd (final_report w s) = SysExit c \<Longrightarrow> c = har_exit_code w"
  by (auto simp: final_report_def Let_def split: sum.splits if_splits)

lemma final_report_ending:
  "snd (final_report w s) = SysExit (har_exit_code w) \<or> (\<exists>x. snd (final_report w s) = Uncaught x)"
  by (simp add: final_report_def Let_def split: sum.splits)

lemma reg_domain_returns:
  assumes "\<forall>f. lib = Some f \<longrightarrow> (\<forall>h. \<exists>t. f h = Inr t)"
  shows "\<exists>d. reg_domain lib n = Inr d"
proof (cases lib)
  case None
  then show ?thesis by (simp add: reg_domain_def Let_def)
next
  case (Some f)
  with assms obtain t where "f (lstrip ''www.'' (lower n)) = Inr t" by blast
  with Some show ?thesis by (simp add: reg_domain_def Let_def)
qed

lemma domains_of_returns:
  assumes "\<forall>u. \<exists>n. nl u = Inr n" "\<forall>f. lib = Some f \<longrightarrow> (\<forall>h. \<exists>t. f h = Inr t)"
  shows "\<exists>ds. domains_of lib nl us = Inr ds"
proof (induction us)
  case Nil
  then show ?case by simp
next
  case (Cons u us)
  from assms(1) obtain n where n: "nl u = Inr n" by blast
  obtain d where "reg_domain lib n = Inr d" using reg_domain_returns[OF assms(2)] by blast
  with n Cons show ?case by auto
qed

text \<open>
  When neither the URL parser nor the library raises, a run that ends does so through
  \<^verbatim>\<open>sys.exit\<close>.
\<close>

lemma main_ends_by_exit:
  assumes "main w = Some (s, e)"
    and "\<forall>u. \<exists>n. netloc_of w u = Inr n" "\<forall>f. tx w = Some f \<longrightarrow> (\<forall>h. \<exists>t. f h = Inr t)"
  shows "\<exists>c. e = SysExit c"
  using assms(1)
proof (cases rule: main_cases)
  case 1
  then show ?thesis by simp
next
  case (2 s1)
  then obtain s0 where "e = snd (final_report w s0)" by (metis snd_conv)
  moreover obtain ds where "domains_of (tx w) (netloc_of w) (unique_urls (matched_urls w)) = Inr ds"
    using domains_of_returns[OF assms(2,3)] by blast
  ultimately show ?thesis
    by (simp add: final_report_def Let_def)
qed

text \<open>A run ends when the page cannot be loaded, or when one of the events ends the wait.\<close>

lemma main_returns:
  assumes "goto_error w \<noteq> None \<or> events w \<noteq> []"
  shows "\<exists>r. main w = Some r"
proof (cases "length (argv w) < 2")
  case True
  then show ?thesis by (simp add: main_def)
next
  case False
  have "\<exists>s'. browse w s = Some s'" for s
  proof (cases "goto_error w")
    case (Some e)
    then show ?thesis by (simp add: browse_def)
  next
    case None
    with assms obtain e es where "events w = e # es" by (cases "events w") auto
    with None show ?thesis by (cases e) (simp_all add: browse_def wait_loop_set)
  qed
  then obtain s' where "browse w (announce (extract_slug (argv w ! 1))) = Some s'" by blast
  with False show ?thesis by (simp add: main_def Let_def)
qed

text \<open>
  The exit status of a run that ends: 0 only with an argument and an existing HAR
  file; 0 in that case when the run ends through \<^verbatim>\<open>sys.exit\<close>, which it does when
  neither the URL parser nor the library raises; 1 otherwise.
\<close>

lemma main_exit_status:
  assumes "main w = Some (s, e)"
  shows "(exit_status e = 0 \<longrightarrow> 2 \<le> length (argv w) \<and> har_size w \<noteq> None) \<and>
         (exit_status e \<noteq> 0 \<longrightarrow> exit_status e = 1) \<and>
         ((\<exists>c. e = SysExit c) \<longrightarrow> 2 \<le> length (argv w) \<longrightarrow> har_size w \<noteq> None \<longrightarrow>
            exit_status e = 0) \<and>
         ((\<forall>u. \<exists>n. netloc_of w u = Inr n) \<longrightarrow> (\<forall>f. tx w = Some f \<longrightarrow> (\<forall>h. \<exists>t. f h = Inr t)) \<longrightarrow>
            (\<exists>c. e = SysExit c)) \<and>
         (length (argv w) < 2 \<longrightarrow> stdout s = [usage] \<and> e = SysExit 1)"
proof -
  have ends: "(\<forall>u. \<exists>n. netloc_of w u = Inr n) \<longrightarrow>
      (\<forall>f. tx w = Some f \<longrightarrow> (\<forall>h. \<exists>t. f h = Inr t)) \<longrightarrow> (\<exists>c. e = SysExit c)"
    by (intro impI) (rule main_ends_by_exit[OF assms])
  have kinds: "length (argv w) < 2 \<and> stdout s = [usage] \<and> e = SysExit 1 \<or>
      2 \<le> length (argv w) \<and> (e = SysExit (har_exit_code w) \<or> (\<exists>x. e = Uncaught x))"
    using assms
  proof (cases rule: main_cases)
    case 1
    then show ?thesis by (simp add: session0_def)
  next
    case (2 s1)
    let ?s = "har_report w (har_path (extract_slug (argv w ! 1))) (shutdown s1)"
    from 2(3) have "e = snd (final_report w ?s)" by simp
    with final_report_ending[of w ?s] 2(1) show ?thesis by simp
  qed
  have zero: "exit_status e = 0 \<longrightarrow> 2 \<le> length (argv w) \<and> har_size w \<noteq> None"
    using kinds by (auto simp: har_exit_code_def split: if_splits)
  have one: "exit_status e \<noteq> 0 \<longrightarrow> exit_status e = 1"
    using kinds by (auto simp: har_exit_code_def split: if_splits)
  have har: "(\<exists>c. e = SysExit c) \<longrightarrow> 2 \<le> length (argv w) \<longrightarrow> har_size w \<noteq> None \<longrightarrow>
      exit_status e = 0"
    using kinds by (auto simp: har_exit_code_def split: if_splits)
  have no_arg: "length (argv w) < 2 \<longrightarrow> stdout s = [usage] \<and> e = SysExit 1"
    using kinds by auto
  show ?thesis
    by (rule conjI[OF zero conjI[OF one conjI[OF har conjI[OF ends no_arg]]]])
qed

lemma main_exit_status_examples:
  "map_option snd (main example_world) = Some (SysExit 0) \<and>
   map_option snd (main (example_world\<lparr>live_urls := []\<rparr>)) = Some (SysExit 0) \<and>
   map_option snd (main (example_world\<lparr>har_size := None\<rparr>)) = Some (SysExit 1) \<and>
   map_option (\<lambda>r. (stdout (fst r), snd r)) (main (example_world\<lparr>argv := [''pmtproc.py'']\<rparr>))
     = Some ([usage], SysExit 1)"
proof -
  let ?quiet = "example_world\<lparr>live_urls := []\<rparr>"
  let ?no_har = "example_world\<lparr>har_size := None\<rparr>"
  let ?no_arg = "example_world\<lparr>argv := [''pmtproc.py'']\<rparr>"
  have total: "\<forall>u. \<exists>n. example_netloc u = Inr n" by (simp add: example_netloc_def)
  have run: "\<exists>s e. main w = Some (s, e)" if "events w = [PageClose]" for w
    using main_returns[of w] that by auto
  have code: "e = SysExit (if har_size w \<noteq> None then 0 else 1)"
    if m: "main w = Some (s, e)" and args: "2 \<le> length (argv w)"
      and nl: "netloc_of w = example_netloc" and lib: "tx w = None" for w s e
  proof -
    note t = main_exit_status[OF m]
    note zero = t[THEN conjunct1]
    note one = t[THEN conjunct2, THEN conjunct1]
    note har = t[THEN conjunct2, THEN conjunct2, THEN conjunct1]
    note ends = t[THEN conjunct2, THEN conjunct2, THEN conjunct2, THEN conjunct1]
    have "\<forall>u. \<exists>n. netloc_of w u = Inr n" using total nl by simp
    moreover have "\<forall>f. tx w = Some f \<longrightarrow> (\<forall>h. \<exists>t. f h = Inr t)" using lib by simp
    ultimately obtain c where c: "e = SysExit c" using ends[rule_format] by blast
    show ?thesis
    proof (cases "har_size w \<noteq> None")
      case True
      with har c args have "exit_status e = 0" by blast
      with c True show ?thesis by simp
    next
      case False
      with zero have "exit_status e \<noteq> 0" by blast
      with one have "exit_status e = 1" by blast
      with c False show ?thesis by simp
    qed
  qed
  obtain s1 e1 where r1: "main example_world = Some (s1, e1)"
    using run[of example_world] by (auto simp: example_world_def)
  obtain s2 e2 where r2: "main ?quiet = Some (s2, e2)"
    using run[of ?quiet] by (auto simp: example_world_def)
  obtain s3 e3 where r3: "main ?no_har = Some (s3, e3)"
    using run[of ?no_har] by (auto simp: example_world_def)
  obtain s4 e4 where r4: "main ?no_arg = Some (s4, e4)"
    using run[of ?no_arg] by (auto simp: example_world_def)
  have w1: "2 \<le> length (argv example_world)" "netloc_of example_world = example_netloc"
    "tx example_world = None" "har_size example_world \<noteq> None"
    by (simp_all add: example_world_def)
  have w2: "2 \<le> length (argv ?quiet)" "netloc_of ?quiet = example_netloc"
    "tx ?quiet = None" "har_size ?quiet \<noteq> None"
    by (simp_all add: example_world_def)
  have w3: "2 \<le> length (argv ?no_har)" "netloc_of ?no_har = example_netloc"
    "tx ?no_har = None" "har_size ?no_har = None"
    by (simp_all add: example_world_def)
  from code[OF r1 w1(1-3)] w1(4) have "e1 = SysExit 0" by simp
  moreover from code[OF r2 w2(1-3)] w2(4) have "e2 = SysExit 0" by simp
  moreover from code[OF r3 w3(1-3)] w3(4) have "e3 = SysExit 1" by simp
  moreover have "length (argv ?no_arg) < 2" by (simp add: example_world_def)
  with main_exit_status[OF r4, THEN conjunct2, THEN conjunct2, THEN conjunct2, THEN conjunct2]
  have "stdout s4 = [usage] \<and> e4 = SysExit 1" by (rule mp)
  ultimately show ?thesis using r1 r2 r3 r4 by simp
qed

section \<open>The claims\<close>

text \<open>
  C1. The specification says that the registrable domain of a host is found by
  removing a leading \<open>www.\<close> label and then, without the public-suffix library, taking
  the last two labels. The program calls \<^verbatim>\<open>lstrip("www.")\<close>, which removes every
  leading \<open>w\<close> and dot, not the label: for the host \<open>www.worldpay.com\<close> it answers
  \<open>orldpay.com\<close>, where the specification's function answers \<open>worldpay.com\<close>. The
  three hosts the specification names come out as it says (\<open>reg_domain_examples\<close>).
\<close>

theorem reg_domain_strips_characters:
  "reg_domain None ''www.worldpay.com'' = Inr ''orldpay.com'' \<and>
   registrable_domain_spec ''www.worldpay.com'' = ''worldpay.com''"
  by code_simp

text \<open>
  C2, as the program has it. The stop flag is set by the page-close callback and by
  the browser-disconnect callback, whatever its value was before; setting a flag that
  is set changes nothing; closing a context that is closed raises, and the error is
  swallowed; the shutdown sequence leaves the flag as it is; the callbacks do not run
  the shutdown sequence, and a run with an argument goes through it once. A CTRL-C
  ends the wait and leaves the flag unset.
\<close>

theorem stop_event_set_once:
  "stop_event (on_page_close s) \<and> stop_event (on_browser_disconnected s) \<and>
   (stop_event s \<longrightarrow> event_set s = s) \<and>
   (\<not> ctx_open s \<longrightarrow> ctx_close s = Inl LibraryError \<and> safe_close_context s = s) \<and>
   stop_event (shutdown s) = stop_event s \<and>
   teardowns (on_page_close s) = teardowns s \<and>
   teardowns (on_browser_disconnected s) = teardowns s \<and>
   (\<not> stop_event s \<longrightarrow>
      map_option stop_event (wait_loop (KeyboardInterrupt # es) s) = Some False) \<and>
   (main w = Some (s', e) \<longrightarrow> 2 \<le> length (argv w) \<longrightarrow> teardowns s' = 1)"
  using main_teardowns[of w s' e]
  by (simp add: event_set_def safe_close_context_def ctx_close_def)

theorem stop_event_set_once_witness:
  "event_set (on_page_close session0) = on_page_close session0 \<and>
   safe_close_context (on_page_close session0) = on_page_close session0 \<and>
   stop_event (on_browser_disconnected (on_page_close session0)) \<and>
   map_option stop_event (wait_loop [KeyboardInterrupt, PageClose] session0) = Some False \<and>
   map_option (teardowns \<circ> fst) (main example_world) = Some 1"
proof -
  have set: "stop_event (on_page_close session0)" by simp
  have closed: "\<not> ctx_open (on_page_close session0)" by (simp add: on_page_close_def)
  have unset: "\<not> stop_event session0" by (simp add: session0_def)
  have args: "2 \<le> length (argv example_world)" by (simp add: example_world_def)
  obtain s' e where run: "main example_world = Some (s', e)"
    using main_returns[of example_world] by (auto simp: example_world_def)
  note after_close = stop_event_set_once[where s = "on_page_close session0" and w = example_world
      and s' = s' and e = e]
  from after_close set closed run args
  have "event_set (on_page_close session0) = on_page_close session0"
    "safe_close_context (on_page_close session0) = on_page_close session0"
    "stop_event (on_browser_disconnected (on_page_close session0))" "teardowns s' = 1"
    by blast+
  moreover from stop_event_set_once[where s = session0 and es = "[PageClose]"] unset
  have "map_option stop_event (wait_loop [KeyboardInterrupt, PageClose] session0) = Some False"
    by blast
  ultimately show ?thesis using run by simp
qed

text \<open>
  The specification counts the operator's interrupt among the producers of the stop
  signal. In the program a CTRL-C ends the wait and the flag stays unset.
\<close>

theorem interrupt_leaves_stop_event_unset:
  "map_option stop_event (wait_loop [KeyboardInterrupt] session0) = Some False"
  by (simp add: session0_def)

text \<open>
  C3. The specification says that the exit code is 0 exactly when the HAR file exists
  at the end of the run, whatever was matched. Both \<^verbatim>\<open>sys.exit\<close> calls of the
  report say so, but the report does not catch what reg_domain raises: in a run with
  an argument and with the library as the program calls it, the HAR file exists and
  one URL was matched, and the run ends with status 1; the same run without a match
  ends with status 0. What holds for every run is \<open>main_exit_status\<close>.
\<close>

theorem exit_status_one_with_har:
  "2 \<le> length (argv (example_world\<lparr>tx := Some unusable_tx\<rparr>)) \<and>
   har_size (example_world\<lparr>tx := Some unusable_tx\<rparr>) = Some 1234 \<and>
   map_option (exit_status \<circ> snd) (main (example_world\<lparr>tx := Some unusable_tx\<rparr>)) = Some 1 \<and>
   map_option (exit_status \<circ> snd) (main (example_world\<lparr>tx := Some unusable_tx, live_urls := []\<rparr>))
     = Some 0"
  by code_simp

text \<open>
  C4, as the program has it. When the input contains \<open>givesendgo.com/\<close> in any letter
  case, followed by a non-empty segment \<open>X\<close> that ends at the first \<open>/\<close>, \<open>?\<close> or \<open>#\<close> or at
  the end of the input, and the pattern matches at no earlier position, extract_slug
  returns exactly \<open>X\<close>.
\<close>

theorem extract_slug_leftmost:
  assumes "lower g = ''givesendgo.com/''" "X \<noteq> []" "\<forall>c\<in>set X. c \<notin> set ''/?#''"
    "rest = [] \<or> hd rest \<in> set ''/?#''"
    "\<forall>j<length pre. match_here (drop j (pre @ g @ X @ rest)) = None"
  shows "extract_slug (pre @ g @ X @ rest) = X"
proof -
  have "match_here (g @ X @ rest) = Some X"
    using assms(1-4) by (intro match_here_occurrence) (simp_all add: slug_literal_def slug_char_def)
  then have "re_search (g @ X @ rest) = Some X" by (rule re_search_hit)
  moreover have "re_search (pre @ g @ X @ rest) = re_search (g @ X @ rest)"
    using assms(5) by (rule re_search_skip)
  ultimately show ?thesis by (simp add: extract_slug_def)
qed

theorem extract_slug_leftmost_witness:
  "extract_slug (''https://www.'' @ ''GiveSendGo.COM/'' @ ''MyCampaign'' @ ''?ref=1'') = ''MyCampaign''"
proof (rule extract_slug_leftmost)
  show "lower ''GiveSendGo.COM/'' = ''givesendgo.com/''" by code_simp
  show "''MyCampaign'' \<noteq> []" by simp
  show "\<forall>c\<in>set ''MyCampaign''. c \<notin> set ''/?#''" by simp
  show "''?ref=1'' = [] \<or> hd ''?ref=1'' \<in> set ''/?#''" by simp
  show "\<forall>j<length ''https://www.''.
          match_here (drop j (''https://www.'' @ ''GiveSendGo.COM/'' @ ''MyCampaign'' @ ''?ref=1'')) = None"
    by (simp add: less_Suc_eq match_here_def slug_literal_def lower_def lower_char_def less_eq_char_def)
qed

text \<open>
  The specification lets the segment end at the end of the input, which allows an
  empty segment. The pattern asks for at least one character: for the address of the
  site itself the search fails and the whole input comes back, not the empty segment.
\<close>

theorem extract_slug_empty_segment:
  "''https://www.givesendgo.com/'' = ''https://www.'' @ ''givesendgo.com/'' @ [] @ [] \<and>
   extract_slug ''https://www.givesendgo.com/'' = ''https://www.givesendgo.com/'' \<and>
   extract_slug ''https://www.givesendgo.com/'' \<noteq> []"
  by code_simp

text \<open>
  C5. The specification says that extracting the slug twice gives the same as
  extracting it once. The program trims the input when the pattern does not match,
  but returns the matched segment as it is: for an address with a space at its end the
  first application returns the segment with the space, the second one without it.
  What holds for every input is \<open>extract_slug_twice\<close>, and \<open>extract_slug_no_match_idem\<close>
  where the pattern does not match.
\<close>

theorem extract_slug_not_idempotent:
  "extract_slug ''https://www.givesendgo.com/abc '' = ''abc '' \<and>
   extract_slug (extract_slug ''https://www.givesendgo.com/abc '') = ''abc''"
  by code_simp

text \<open>
  C6, as the program has it. In a run with matches whose report does not raise, the
  output ends with the domain table and the list of URLs. The rows of the table are
  one for each domain with the number of its occurrences, in descending order of that
  number, and rows with equal numbers in the order in which their domains were
  inserted into the counter: the order of their first occurrence in the list of
  domains, which follows the sorted unique URLs.
\<close>

theorem domain_table_display:
  assumes "main w = Some (s, e)" "2 \<le> length (argv w)" "matched_urls w \<noteq> []"
    and "domains_of (tx w) (netloc_of w) (unique_urls (matched_urls w)) = Inr ds"
  shows "(\<exists>before. stdout s =
            before @ [[], ''== Payment-processor domains detected ==''] @
            map domain_line (most_common (Counter ds)) @
            [[], ''== Matching request URLs ==''] @
            map url_line (unique_urls (matched_urls w))) \<and>
         sorted_wrt
           (\<lambda>a b. snd b < snd a \<or>
                  (snd a = snd b \<and> first_index ds (fst a) < first_index ds (fst b)))
           (most_common (Counter ds)) \<and>
         set (most_common (Counter ds)) = (\<lambda>d. (d, count_list ds d)) ` set ds \<and>
         distinct (map fst (most_common (Counter ds))) \<and>
         ds = List.map_filter (url_domain (tx w) (netloc_of w)) (unique_urls (matched_urls w))"
proof -
  note out = main_report_stdout[OF assms]
  note ord = most_common_order[of ds]
  note dom = domains_of_map_filter[OF assms(4)]
  show ?thesis
    by (rule conjI[OF out conjI[OF ord[THEN conjunct1] conjI[OF ord[THEN conjunct2, THEN conjunct1]
          conjI[OF ord[THEN conjunct2, THEN conjunct2] dom]]]])
qed

theorem domain_table_display_witness:
  "\<exists>before.
     map_option (stdout \<circ> fst)
       (main (example_world\<lparr>live_urls := [''https://js.stripe.com/v3'', ''https://api.paypal.com/x'',
          ''https://m.stripe.com/6'', ''https://checkout.adyen.com/y'']\<rparr>)) =
     Some (before @
       [[], ''== Payment-processor domains detected =='',
        domain_line (''stripe.com'', 2), domain_line (''paypal.com'', 1), domain_line (''adyen.com'', 1),
        [], ''== Matching request URLs =='',
        url_line ''https://api.paypal.com/x'', url_line ''https://checkout.adyen.com/y'',
        url_line ''https://js.stripe.com/v3'', url_line ''https://m.stripe.com/6''])"
proof -
  let ?w = "example_world\<lparr>live_urls := [''https://js.stripe.com/v3'', ''https://api.paypal.com/x'',
          ''https://m.stripe.com/6'', ''https://checkout.adyen.com/y'']\<rparr>"
  let ?ds = "[''paypal.com'', ''adyen.com'', ''stripe.com'', ''stripe.com'']"
  have args: "2 \<le> length (argv ?w)" by (simp add: example_world_def)
  have some: "matched_urls ?w \<noteq> []" by code_simp
  have uniq: "unique_urls (matched_urls ?w) =
      [''https://api.paypal.com/x'', ''https://checkout.adyen.com/y'',
       ''https://js.stripe.com/v3'', ''https://m.stripe.com/6'']"
    by code_simp
  have doms: "domains_of (tx ?w) (netloc_of ?w) (unique_urls (matched_urls ?w)) = Inr ?ds"
    by code_simp
  have rows: "most_common (Counter ?ds) =
      [(''stripe.com'', 2), (''paypal.com'', 1), (''adyen.com'', 1)]"
    by code_simp
  have "events ?w \<noteq> []" by (simp add: example_world_def)
  then obtain s e where run: "main ?w = Some (s, e)" using main_returns[of ?w] by auto
  from domain_table_display[OF run args some doms, THEN conjunct1]
  obtain before where "stdout s =
            before @ [[], ''== Payment-processor domains detected ==''] @
            map domain_line (most_common (Counter ?ds)) @
            [[], ''== Matching request URLs ==''] @
            map url_line (unique_urls (matched_urls ?w))"
    by blast
  then have out: "stdout s = before @
       [[], ''== Payment-processor domains detected =='',
        domain_line (''stripe.com'', 2), domain_line (''paypal.com'', 1), domain_line (''adyen.com'', 1),
        [], ''== Matching request URLs =='',
        url_line ''https://api.paypal.com/x'', url_line ''https://checkout.adyen.com/y'',
        url_line ''https://js.stripe.com/v3'', url_line ''https://m.stripe.com/6'']"
    by (simp only: rows uniq list.map append.simps)
  have "map_option (stdout \<circ> fst) (main ?w) = Some (stdout s)"
    by (simp only: run option.map comp_def fst_conv)
  then show ?thesis unfolding out by blast
qed

text \<open>
  The specification calls the order of the ties the order of discovery. The order is
  not that of the capture: of two domains with one request each, the one requested
  first is printed second when its URL sorts after the other.
\<close>

theorem domain_table_not_in_capture_order:
  "live_urls (example_world\<lparr>live_urls := [''https://js.stripe.com/v3'', ''https://api.paypal.com/x'']\<rparr>)
     = [''https://js.stripe.com/v3'', ''https://api.paypal.com/x''] \<and>
   map_option (bullet_lines \<circ> stdout \<circ> fst)
     (main (example_world\<lparr>live_urls := [''https://js.stripe.com/v3'', ''https://api.paypal.com/x'']\<rparr>))
     = Some [domain_line (''paypal.com'', 1), domain_line (''stripe.com'', 1),
             url_line ''https://api.paypal.com/x'', url_line ''https://js.stripe.com/v3'']"
  by code_simp

text \<open>
  C7, as the program has it. In a run with matches whose report does not raise, the
  output ends with the list of unique URLs: of all matched URLs, those captured during
  the session and those found by the scan of the HAR file, exactly the ones that
  start with the four characters \<open>http\<close>, each once, in lexicographic order.
\<close>

theorem url_list_display:
  assumes "main w = Some (s, e)" "2 \<le> length (argv w)" "matched_urls w \<noteq> []"
    and "domains_of (tx w) (netloc_of w) (unique_urls (matched_urls w)) = Inr ds"
  shows "(\<exists>before. stdout s =
            before @ [[], ''== Matching request URLs ==''] @
            map url_line (unique_urls (matched_urls w))) \<and>
         matched_urls w = live_urls w @ (if har_size w \<noteq> None then scan_urls w else []) \<and>
         set (unique_urls (matched_urls w)) = {u \<in> set (matched_urls w). startswith u ''http''} \<and>
         distinct (unique_urls (matched_urls w)) \<and>
         sorted (unique_urls (matched_urls w))"
proof -
  from main_report_stdout[OF assms] obtain b where "stdout s =
           b @ [[], ''== Payment-processor domains detected ==''] @
           map domain_line (most_common (Counter ds)) @
           [[], ''== Matching request URLs ==''] @
           map url_line (unique_urls (matched_urls w))"
    by blast
  then have "stdout s =
           (b @ [[], ''== Payment-processor domains detected ==''] @
            map domain_line (most_common (Counter ds))) @
           [[], ''== Matching request URLs ==''] @
           map url_line (unique_urls (matched_urls w))"
    by simp
  then have out: "\<exists>before. stdout s =
            before @ [[], ''== Matching request URLs ==''] @
            map url_line (unique_urls (matched_urls w))"
    by blast
  have all: "matched_urls w = live_urls w @ (if har_size w \<noteq> None then scan_urls w else [])"
    by (simp add: matched_urls_def)
  note u = unique_urls_filter_dedup_sort[of "matched_urls w"]
  show ?thesis
    by (rule conjI[OF out conjI[OF all conjI[OF u[THEN conjunct1]
          conjI[OF u[THEN conjunct2, THEN conjunct1] u[THEN conjunct2, THEN conjunct2, THEN conjunct1]]]]])
qed

theorem url_list_display_witness:
  "\<exists>before.
     map_option (stdout \<circ> fst)
       (main (example_world\<lparr>live_urls := [''https://js.stripe.com/v3'', ''data:card'',
          ''https://js.stripe.com/v3''], scan_urls := [''http://api.paypal.com/x'']\<rparr>)) =
     Some (before @
       [[], ''== Matching request URLs =='',
        url_line ''http://api.paypal.com/x'', url_line ''https://js.stripe.com/v3''])"
proof -
  let ?w = "example_world\<lparr>live_urls := [''https://js.stripe.com/v3'', ''data:card'',
          ''https://js.stripe.com/v3''], scan_urls := [''http://api.paypal.com/x'']\<rparr>"
  have args: "2 \<le> length (argv ?w)" by (simp add: example_world_def)
  have some: "matched_urls ?w \<noteq> []" by code_simp
  have uniq: "unique_urls (matched_urls ?w) =
      [''http://api.paypal.com/x'', ''https://js.stripe.com/v3'']"
    by code_simp
  have doms: "domains_of (tx ?w) (netloc_of ?w) (unique_urls (matched_urls ?w)) =
      Inr [''paypal.com'', ''stripe.com'']"
    by code_simp
  have "events ?w \<noteq> []" by (simp add: example_world_def)
  then obtain s e where run: "main ?w = Some (s, e)" using main_returns[of ?w] by auto
  from url_list_display[OF run args some doms, THEN conjunct1]
  obtain before where "stdout s =
            before @ [[], ''== Matching request URLs ==''] @
            map url_line (unique_urls (matched_urls ?w))"
    by blast
  then have out: "stdout s = before @
       [[], ''== Matching request URLs =='',
        url_line ''http://api.paypal.com/x'', url_line ''https://js.stripe.com/v3'']"
    by (simp only: uniq list.map append.simps)
  have "map_option (stdout \<circ> fst) (main ?w) = Some (stdout s)"
    by (simp only: run option.map comp_def fst_conv)
  then show ?thesis unfolding out by blast
qed

text \<open>
  The specification speaks of a recognized URL scheme. The test of the report is
  \<^verbatim>\<open>u.startswith("http")\<close> in lower case: a URL that the scan took from a header
  with its scheme in capital letters is among the matches and is not printed.
\<close>

theorem upper_case_scheme_dropped:
  "url_re_prefix ''HTTPS://js.stripe.com/v3'' \<and>
   ''HTTPS://js.stripe.com/v3''
     \<in> set (matched_urls (example_world\<lparr>scan_urls := [''HTTPS://js.stripe.com/v3'']\<rparr>)) \<and>
   ''HTTPS://js.stripe.com/v3''
     \<notin> set (unique_urls (matched_urls (example_world\<lparr>scan_urls := [''HTTPS://js.stripe.com/v3'']\<rparr>))) \<and>
   map_option (bullet_lines \<circ> stdout \<circ> fst)
     (main (example_world\<lparr>live_urls := [], scan_urls := [''HTTPS://js.stripe.com/v3'']\<rparr>)) = Some []"
  by code_simp

text \<open>
  C8, as the program has it. When the library is absent, or present and returning,
  reg_domain returns for every host. For a host without a dot that does not begin with
  \<open>w\<close> or \<open>W\<close> it returns, without the library, the host in lower case.
\<close>

theorem reg_domain_never_fails:
  assumes "\<forall>f. lib = Some f \<longrightarrow> (\<forall>h. \<exists>t. f h = Inr t)"
  shows "(\<exists>r. reg_domain lib netloc = Inr r) \<and>
         (CHR ''.'' \<notin> set netloc \<longrightarrow> \<not> startswith (lower netloc) ''w'' \<longrightarrow>
            reg_domain None netloc = Inr (lower netloc))"
proof
  show "\<exists>r. reg_domain lib netloc = Inr r"
    using assms by (rule reg_domain_returns)
  show "CHR ''.'' \<notin> set netloc \<longrightarrow> \<not> startswith (lower netloc) ''w'' \<longrightarrow>
            reg_domain None netloc = Inr (lower netloc)"
  proof (intro impI)
    assume dot: "CHR ''.'' \<notin> set netloc" and w: "\<not> startswith (lower netloc) ''w''"
    from dot have dot': "CHR ''.'' \<notin> set (lower netloc)" by (simp add: dot_in_lower)
    have "lstrip ''www.'' (lower netloc) = lower netloc"
    proof (cases "lower netloc")
      case Nil
      then show ?thesis by (simp add: lstrip_def)
    next
      case (Cons c cs)
      with w dot' have "c \<noteq> CHR ''w''" "c \<noteq> CHR ''.''" by (auto simp: startswith_def)
      with Cons show ?thesis by (simp add: lstrip_def)
    qed
    moreover have "last_two_labels (lower netloc) = lower netloc"
      using dot' by (simp add: last_two_labels_def split_no_sep)
    ultimately show "reg_domain None netloc = Inr (lower netloc)"
      by (simp add: reg_domain_def)
  qed
qed

theorem reg_domain_never_fails_witness:
  "(\<exists>r. reg_domain (Some example_tx) ''LocalHost'' = Inr r) \<and>
   reg_domain None ''LocalHost'' = Inr ''localhost''"
proof -
  have a: "\<forall>f. Some example_tx = Some f \<longrightarrow> (\<forall>h. \<exists>t. f h = Inr t)"
    by (simp add: example_tx_def)
  have b: "CHR ''.'' \<notin> set ''LocalHost''" by simp
  have c: "\<not> startswith (lower ''LocalHost'') ''w''" by code_simp
  have d: "lower ''LocalHost'' = ''localhost''" by code_simp
  from reg_domain_never_fails[OF a, of "''LocalHost''"] b c d show ?thesis by simp
qed

text \<open>
  The specification says that in the worst case the input comes back unchanged. The
  program puts the host in lower case first: a host of one label with capital letters
  comes back changed.
\<close>

theorem reg_domain_changes_single_label:
  "length (split CHR ''.'' ''LOCALHOST'') < 2 \<and>
   reg_domain None ''LOCALHOST'' = Inr ''localhost'' \<and> ''localhost'' \<noteq> ''LOCALHOST''"
  by code_simp

text \<open>
  C9. Whatever reg_domain returns is in lower case, provided the library, when present,
  answers a lower case host with a lower case domain and suffix; and reg_domain gives
  the same for a host and for the host in lower case, since the case mapping comes
  before everything else.
\<close>

theorem reg_domain_lowercase:
  assumes "reg_domain lib netloc = Inr r"
    and "\<forall>f. lib = Some f \<longrightarrow>
           (\<forall>h t. f h = Inr t \<longrightarrow> lower h = h \<longrightarrow>
              lower (domain t) = domain t \<and> lower (suffix t) = suffix t)"
  shows "lower r = r \<and> reg_domain lib netloc = reg_domain lib (lower netloc)"
proof
  let ?n = "lstrip ''www.'' (lower netloc)"
  have n: "lower ?n = ?n" by (rule lower_lstrip)
  then have fb: "lower (last_two_labels ?n) = last_two_labels ?n"
    by (rule lower_last_two_labels)
  show "lower r = r"
  proof (cases lib)
    case None
    with assms(1) fb show ?thesis by (simp add: reg_domain_def Let_def)
  next
    case (Some f)
    with assms(1) obtain t where t: "f ?n = Inr t"
      by (auto simp: reg_domain_def Let_def split: sum.splits)
    with assms(2) Some n have "lower (domain t) = domain t" "lower (suffix t) = suffix t"
      by blast+
    then have "lower (domain t @ ''.'' @ suffix t) = domain t @ ''.'' @ suffix t"
      by (simp add: lower_append) (simp add: lower_def lower_char_def less_eq_char_def)
    with assms(1) Some t fb show ?thesis
      by (auto simp: reg_domain_def Let_def split: if_splits)
  qed
  show "reg_domain lib netloc = reg_domain lib (lower netloc)"
    by (simp add: reg_domain_def lower_lower)
qed

theorem reg_domain_lowercase_witness:
  "reg_domain None ''Checkout.Adyen.COM'' = Inr ''adyen.com'' \<and>
   reg_domain (Some example_tx) ''JS.Stripe.COM'' = Inr ''stripe.com'' \<and>
   lower ''adyen.com'' = ''adyen.com'' \<and> lower ''stripe.com'' = ''stripe.com''"
proof -
  have r1: "reg_domain None ''Checkout.Adyen.COM'' = Inr ''adyen.com''" by code_simp
  have r2: "reg_domain (Some example_tx) ''JS.Stripe.COM'' = Inr ''stripe.com''" by code_simp
  have h1: "\<forall>f. (None :: tldextract option) = Some f \<longrightarrow>
           (\<forall>h t. f h = Inr t \<longrightarrow> lower h = h \<longrightarrow>
              lower (domain t) = domain t \<and> lower (suffix t) = suffix t)"
    by simp
  have "lower ''stripe'' = ''stripe''" "lower ''com'' = ''com''" by code_simp+
  then have h2: "\<forall>f. Some example_tx = Some f \<longrightarrow>
           (\<forall>h t. f h = Inr t \<longrightarrow> lower h = h \<longrightarrow>
              lower (domain t) = domain t \<and> lower (suffix t) = suffix t)"
    by (auto simp: example_tx_def)
  from reg_domain_lowercase[OF r1 h1] reg_domain_lowercase[OF r2 h2] r1 r2
  show ?thesis by simp
qed

text \<open>
  C10. For a command-line target on which the pattern does not match, the name of the
  HAR file is \<open>pmtproc_\<close>, the trimmed target as it is, and \<open>_monitor.har\<close>; the HAR
  path is a direct child of the output directory exactly when the trimmed target has no
  slash, so for a target such as \<open>a/b\<close> it is not.
\<close>

theorem har_name_embeds_target:
  assumes "re_search target = None"
  shows "har_name (extract_slug target) = ''pmtproc_'' @ strip target @ ''_monitor.har'' \<and>
         (parent (har_path (extract_slug target)) = HAR_DIR \<longleftrightarrow> CHR ''/'' \<notin> set (strip target))"
proof -
  have slug: "extract_slug target = strip target" using assms by (simp add: extract_slug_def)
  have "parent (har_path (strip target)) = HAR_DIR \<longleftrightarrow> CHR ''/'' \<notin> set (strip target)"
  proof (cases "CHR ''/'' \<in> set (strip target)")
    case True
    then have "2 \<le> length (path_parts (har_name (strip target)))" by (rule path_parts_nested)
    then have "length (parent (har_path (strip target))) \<noteq> length HAR_DIR"
      by (simp add: parent_def har_path_def)
    with True show ?thesis by auto
  next
    case False
    then show ?thesis by (simp add: parent_def har_path_def path_parts_plain)
  qed
  then show ?thesis by (simp add: slug har_name_def)
qed

theorem har_name_embeds_target_witness:
  "re_search '' a/b '' = None \<and>
   har_name (extract_slug '' a/b '') = ''pmtproc_a/b_monitor.har'' \<and>
   har_path (extract_slug '' a/b '') = HAR_DIR @ [''pmtproc_a'', ''b_monitor.har''] \<and>
   parent (har_path (extract_slug '' a/b '')) \<noteq> HAR_DIR"
proof -
  have n: "re_search '' a/b '' = None" by code_simp
  have s: "strip '' a/b '' = ''a/b''" by code_simp
  have p: "har_path (extract_slug '' a/b '') = HAR_DIR @ [''pmtproc_a'', ''b_monitor.har'']"
    by code_simp
  from har_name_embeds_target[OF n] s p n show ?thesis by simp
qed

end
